theory Spec2Isabelle
  imports Main "HOL-Library.Word" "HOL-Library.Log_Nat" "HOL-Library.Sublist"
begin

unbundle bit_operations_syntax

section \<open>Character cursors\<close>

text \<open>
  A code point (\<open>juce_wchar\<close>) is a natural number. A cursor (\<open>CharPointerType\<close>) is a
  position in caller-owned, null-terminated storage; it is modelled by the code points
  from the position onwards. The text ends at the first code point 0, or at the end of
  the list, which stands for the terminator as well.

  Modelled from the spec: the cursor classes themselves (\<open>operator*\<close>, \<open>operator++\<close>,
  \<open>getAndAdvance\<close>, \<open>operator[]\<close>, \<open>isDigit\<close>, \<open>isWhitespace\<close>, \<open>length\<close>,
  \<open>findEndOfWhitespace\<close>, \<open>compareUpTo\<close>) are not part of the header; they follow the
  capability contract of the specification: reading at the terminator yields 0 and
  advancing at the terminator is a no-op.
\<close>

type_synonym juce_wchar = nat
type_synonym cursor = "juce_wchar list"

abbreviation (input) chr :: "char \<Rightarrow> juce_wchar" where
  "chr c \<equiv> of_char c"

definition text_of :: "string \<Rightarrow> cursor" where
  "text_of str = map of_char str"

definition current :: "cursor \<Rightarrow> juce_wchar" where
  "current p = (case p of [] \<Rightarrow> 0 | c # _ \<Rightarrow> c)"

definition advance :: "cursor \<Rightarrow> cursor" where
  "advance p = (case p of [] \<Rightarrow> [] | c # cs \<Rightarrow> if c = 0 then p else cs)"

definition getAndAdvance :: "cursor \<Rightarrow> juce_wchar \<times> cursor" where
  "getAndAdvance p = (current p, advance p)"

definition subscript :: "cursor \<Rightarrow> nat \<Rightarrow> juce_wchar" where
  "subscript p n = current ((advance ^^ n) p)"

text \<open>The code points of the text a cursor points at, without the terminator.\<close>

definition chars :: "cursor \<Rightarrow> juce_wchar list" where
  "chars p = takeWhile (\<lambda>c. c \<noteq> 0) p"

text \<open>
  Modelled from the spec: the classification predicates are declared in the header and
  defined elsewhere. \<open>isDigit\<close> is the ASCII decimal digits, \<open>isWhitespace\<close> the space
  and the control characters 9 to 13.
\<close>

definition isDigit :: "juce_wchar \<Rightarrow> bool" where
  "isDigit c = (chr CHR ''0'' \<le> c \<and> c \<le> chr CHR ''9'')"

definition isWhitespace :: "juce_wchar \<Rightarrow> bool" where
  "isWhitespace c = (c = chr CHR '' '' \<or> (9 \<le> c \<and> c \<le> 13))"

function findEndOfWhitespace :: "cursor \<Rightarrow> cursor" where
  "findEndOfWhitespace p =
     (if isWhitespace (current p) then findEndOfWhitespace (advance p) else p)"
  by pat_completeness auto
termination
  by (relation "measure length")
     (auto simp: isWhitespace_def current_def advance_def split: list.splits)

declare findEndOfWhitespace.simps [simp del]

function length_cp :: "cursor \<Rightarrow> int" where
  "length_cp p = (if current p = 0 then 0 else 1 + length_cp (advance p))"
  by pat_completeness auto
termination
  by (relation "measure length")
     (auto simp: current_def advance_def split: list.splits)

declare length_cp.simps [simp del]

section \<open>IEEE 754 binary64 values\<close>

text \<open>
  A \<open>double\<close> is a NaN, a signed infinity, or \<open>Finite sg m e\<close>: the sign bit \<open>sg\<close>
  (\<open>True\<close> for negative), the significand \<open>m\<close> and the exponent \<open>e\<close> of its last
  place, of value \<open>m * 2 ^ e\<close>. A normal number has \<open>2 ^ 52 \<le> m < 2 ^ 53\<close> and
  \<open>- 1074 \<le> e \<le> 971\<close>, a subnormal one \<open>0 < m < 2 ^ 52\<close> and \<open>e = - 1074\<close>, and the two
  zeros are \<open>Finite sg 0 0\<close>. Results are rounded to nearest, ties to even, with gradual
  underflow and with overflow to infinity.
\<close>

datatype double = NaN | Infinity bool | Finite bool int int

text \<open>The fraction \<open>num / den\<close> divided by \<open>2 ^ t\<close>, as a fraction again.\<close>

definition scaled :: "int \<Rightarrow> int \<Rightarrow> int \<Rightarrow> int \<times> int" where
  "scaled num den t =
     (if 0 \<le> t then (num, den * 2 ^ nat t) else (num * 2 ^ nat (- t), den))"

text \<open>The exponent \<open>k\<close> with \<open>2 ^ k \<le> num / den < 2 ^ (k + 1)\<close>, for a positive fraction.\<close>

definition binade :: "int \<Rightarrow> int \<Rightarrow> int" where
  "binade num den =
     (let k = bitlen num - bitlen den;
          (n, d) = scaled num den k
      in if d \<le> n then k else k - 1)"

definition round_ties_even :: "int \<Rightarrow> int \<Rightarrow> int" where
  "round_ties_even n d =
     (let q = n div d; r = n mod d
      in if 2 * r < d then q else if d < 2 * r then q + 1
         else if even q then q else q + 1)"

text \<open>The double nearest to \<open>num / den\<close>, with the sign \<open>sg\<close>.\<close>

definition round64 :: "bool \<Rightarrow> int \<Rightarrow> int \<Rightarrow> double" where
  "round64 sg num den =
     (if num = 0 then Finite sg 0 0
      else let u = max (binade num den) (- 1022) - 52;
               (n, d) = scaled num den u;
               m = round_ties_even n d;
               (m1, u1) = (if m = 2 ^ 53 then (2 ^ 52, u + 1) else (m, u))
           in if m1 = 0 then Finite sg 0 0
              else if 971 < u1 then Infinity sg
              else Finite sg m1 u1)"

definition double_of_int :: "int \<Rightarrow> double" where
  "double_of_int i = round64 (i < 0) \<bar>i\<bar> 1"

fun dneg :: "double \<Rightarrow> double" where
  "dneg NaN = NaN"
| "dneg (Infinity sg) = Infinity (\<not> sg)"
| "dneg (Finite sg m e) = Finite (\<not> sg) m e"

text \<open>The signed significand of a finite double, once its last place is moved to \<open>g\<close>.\<close>

definition aligned :: "bool \<Rightarrow> int \<Rightarrow> int \<Rightarrow> int \<Rightarrow> int" where
  "aligned sg m e g = (if sg then - 1 else 1) * m * 2 ^ nat (e - g)"

fun dadd :: "double \<Rightarrow> double \<Rightarrow> double" where
  "dadd NaN _ = NaN"
| "dadd _ NaN = NaN"
| "dadd (Infinity a) (Infinity b) = (if a = b then Infinity a else NaN)"
| "dadd (Infinity a) (Finite _ _ _) = Infinity a"
| "dadd (Finite _ _ _) (Infinity b) = Infinity b"
| "dadd (Finite a m e) (Finite b n f) =
     (let g = min e f;
          x = aligned a m e g + aligned b n f g;
          (num, den) = scaled \<bar>x\<bar> 1 (- g)
      in if x = 0 then Finite (a \<and> b) 0 0 else round64 (x < 0) num den)"

fun dmul :: "double \<Rightarrow> double \<Rightarrow> double" where
  "dmul NaN _ = NaN"
| "dmul _ NaN = NaN"
| "dmul (Infinity a) (Infinity b) = Infinity (a \<noteq> b)"
| "dmul (Infinity a) (Finite b n _) = (if n = 0 then NaN else Infinity (a \<noteq> b))"
| "dmul (Finite a m _) (Infinity b) = (if m = 0 then NaN else Infinity (a \<noteq> b))"
| "dmul (Finite a m e) (Finite b n f) =
     (let (num, den) = scaled (m * n) 1 (- (e + f)) in round64 (a \<noteq> b) num den)"

text \<open>The comparison \<open>x > y\<close>; it is false when either side is a NaN.\<close>

fun dgt :: "double \<Rightarrow> double \<Rightarrow> bool" where
  "dgt NaN _ = False"
| "dgt _ NaN = False"
| "dgt (Infinity a) (Infinity b) = (\<not> a \<and> b)"
| "dgt (Infinity a) (Finite _ _ _) = (\<not> a)"
| "dgt (Finite _ _ _) (Infinity b) = b"
| "dgt (Finite a m e) (Finite b n f) =
     (let g = min e f in aligned b n f g < aligned a m e g)"

text \<open>The comparison \<open>x == y\<close>: a NaN differs from itself, the two zeros are equal.\<close>

fun deq :: "double \<Rightarrow> double \<Rightarrow> bool" where
  "deq (Infinity a) (Infinity b) = (a = b)"
| "deq (Finite a m e) (Finite b n f) =
     (let g = min e f in aligned a m e g = aligned b n f g)"
| "deq _ _ = False"

text \<open>
  Modelled from the spec: \<open>mulexp10\<close> is declared in the header and defined elsewhere.
  The specification says that it multiplies the value by ten to the power of the
  exponent; the product is rounded once.
\<close>

fun mulexp10 :: "double \<Rightarrow> int \<Rightarrow> double" where
  "mulexp10 NaN _ = NaN"
| "mulexp10 (Infinity sg) _ = Infinity sg"
| "mulexp10 (Finite sg m e) x =
     (let (num, den) = scaled m 1 (- e)
      in if 0 \<le> x then round64 sg (num * 10 ^ nat x) den
         else round64 sg num (den * 10 ^ nat (- x)))"

section \<open>getDoubleValue\<close>

text \<open>
  The local variables of \<open>getDoubleValue\<close>. The arrays are functions of the index; the
  \<open>int\<close> counters are unbounded (they are bounded by the length of the text, except
  \<open>exponent\<close>, which stays in range for exponents of up to nine digits).
\<close>

record locals =
  result :: "nat \<Rightarrow> double"
  accumulator :: "nat \<Rightarrow> double"
  exponentAdjustment :: "nat \<Rightarrow> int"
  exponentAccumulator :: "nat \<Rightarrow> int"
  exponent :: int
  decPointIndex :: nat
  digit :: int
  lastDigit :: int
  numSignificantDigits :: int
  isNegative :: bool
  digitsFound :: bool
  s :: cursor

definition maxSignificantDigits :: int where
  "maxSignificantDigits = 15 + 2"

text \<open>\<open>std::numeric_limits<unsigned int>::max()\<close>, for a 32-bit \<open>unsigned int\<close>.\<close>

definition uint_max :: int where
  "uint_max = 4294967295"

definition initial :: "cursor \<Rightarrow> locals" where
  "initial text =
     \<lparr>result = (\<lambda>_. Finite False 0 0), accumulator = (\<lambda>_. Finite False 0 0),
      exponentAdjustment = (\<lambda>_. 0), exponentAccumulator = (\<lambda>_. - 1),
      exponent = 0, decPointIndex = 0, digit = 0, lastDigit = 0,
      numSignificantDigits = 0, isNegative = False, digitsFound = False,
      s = findEndOfWhitespace text\<rparr>"

text \<open>The first \<open>switch\<close>: a minus sign sets \<open>isNegative\<close> and falls through to the plus case.\<close>

definition readSign :: "locals \<Rightarrow> locals" where
  "readSign st =
     (let c = current (s st)
      in if c = chr CHR ''-'' then st\<lparr>isNegative := True, s := advance (s st)\<rparr>
         else if c = chr CHR ''+'' then st\<lparr>s := advance (s st)\<rparr>
         else st)"

text \<open>The second \<open>switch\<close>: the value returned at once, if any.\<close>

definition special :: "cursor \<Rightarrow> double option" where
  "special p =
     (let c = current p
      in if c = chr CHR ''n'' \<or> c = chr CHR ''N'' then
           (if (subscript p 1 = chr CHR ''a'' \<or> subscript p 1 = chr CHR ''A'')
               \<and> (subscript p 2 = chr CHR ''n'' \<or> subscript p 2 = chr CHR ''N'')
            then Some NaN else None)
         else if c = chr CHR ''i'' \<or> c = chr CHR ''I'' then
           (if (subscript p 1 = chr CHR ''n'' \<or> subscript p 1 = chr CHR ''N'')
               \<and> (subscript p 2 = chr CHR ''f'' \<or> subscript p 2 = chr CHR ''F'')
            then Some (Infinity False) else None)
         else None)"

text \<open>The inner \<open>while\<close> loop, which skips the digits after the last significant one.\<close>

function skipDigits :: "locals \<Rightarrow> locals" where
  "skipDigits st =
     (if isDigit (current (s st)) then
        skipDigits
          (let st1 = st\<lparr>s := advance (s st)\<rparr>
           in if decPointIndex st1 = 0
              then st1\<lparr>exponentAdjustment :=
                         (exponentAdjustment st1)(0 := exponentAdjustment st1 0 + 1)\<rparr>
              else st1)
      else st)"
  by pat_completeness auto
termination
  by (relation "measure (\<lambda>st. length (s st))")
     (auto simp: isDigit_def current_def advance_def Let_def split: list.splits)

declare skipDigits.simps [simp del]

text \<open>The branch taken by the digit after the last significant one.\<close>

definition capDigit :: "locals \<Rightarrow> locals" where
  "capDigit st =
     (let i = decPointIndex st;
          incremented = st\<lparr>accumulator :=
                             (accumulator st)(i := dadd (accumulator st i) (double_of_int 1))\<rparr>;
          st1 = (if digit st > 5 then incremented
                 else if digit st = 5 \<and> (lastDigit st AND 1) \<noteq> 0 then incremented
                 else st);
          st2 = (if decPointIndex st1 > 0
                 then st1\<lparr>exponentAdjustment :=
                            (exponentAdjustment st1)(1 := exponentAdjustment st1 1 - 1)\<rparr>
                 else st1\<lparr>exponentAdjustment :=
                            (exponentAdjustment st1)(0 := exponentAdjustment st1 0 + 1)\<rparr>)
      in skipDigits st2)"

text \<open>The branch that folds a significant digit into the accumulator of its lane.\<close>

definition foldDigit :: "locals \<Rightarrow> locals" where
  "foldDigit st =
     (let i = decPointIndex st;
          maxAccumulatorValue = double_of_int ((uint_max - 9) div 10);
          st1 = (if dgt (accumulator st i) maxAccumulatorValue
                 then st\<lparr>result := (result st)
                            (i := dadd (mulexp10 (result st i) (exponentAccumulator st i))
                                       (accumulator st i)),
                         accumulator := (accumulator st)(i := Finite False 0 0),
                         exponentAccumulator := (exponentAccumulator st)(i := 0)\<rparr>
                 else st)
      in st1\<lparr>accumulator := (accumulator st1)
                 (i := dadd (dmul (accumulator st1 i) (double_of_int 10))
                            (double_of_int (digit st1))),
             exponentAccumulator := (exponentAccumulator st1)
                 (i := exponentAccumulator st1 i + 1)\<rparr>)"

text \<open>One pass of the main loop over a digit.\<close>

definition digitStep :: "locals \<Rightarrow> locals" where
  "digitStep st =
     (let (c, p) = getAndAdvance (s st);
          st1 = st\<lparr>lastDigit := digit st, digit := int c - int (chr CHR ''0''),
                   digitsFound := True, s := p\<rparr>;
          st2 = (if decPointIndex st1 \<noteq> 0
                 then st1\<lparr>exponentAdjustment :=
                            (exponentAdjustment st1)(1 := exponentAdjustment st1 1 + 1)\<rparr>
                 else st1)
      in if numSignificantDigits st2 = 0 \<and> digit st2 = 0 then st2
         else let st3 = st2\<lparr>numSignificantDigits := numSignificantDigits st2 + 1\<rparr>
              in if numSignificantDigits st3 > maxSignificantDigits
                 then capDigit st3 else foldDigit st3)"

text \<open>The main loop \<open>for (;;)\<close>.\<close>

function mainLoop :: "locals \<Rightarrow> locals" where
  "mainLoop st =
     (if isDigit (current (s st)) then mainLoop (digitStep st)
      else if decPointIndex st = 0 \<and> current (s st) = chr CHR ''.'' then
        (let st1 = st\<lparr>s := advance (s st), decPointIndex := 1\<rparr>
         in if numSignificantDigits st1 > maxSignificantDigits
            then st1\<lparr>s := dropWhile isDigit (s st1)\<rparr>
            else mainLoop st1)
      else st)"
  by pat_completeness auto
termination
proof (relation "measure (\<lambda>st. length (s st))")
  show "wf (measure (\<lambda>st. length (s st)))"
    by simp
next
  fix st :: locals
  assume d: "isDigit (current (s st))"
  have skip: "length (s (skipDigits x)) \<le> length (s x)" for x
  proof (induction x rule: skipDigits.induct)
    case (1 x)
    show ?case
    proof (cases "isDigit (current (s x))")
      case True
      with 1 show ?thesis
        by (subst skipDigits.simps)
           (auto simp: Let_def advance_def isDigit_def current_def split: list.splits if_splits)
    next
      case False
      then show ?thesis
        by (subst skipDigits.simps) simp
    qed
  qed
  have cap: "length (s (capDigit x)) \<le> length (s x)" for x
    using skip [of "snd (x, x)"] le_trans [OF skip]
    by (auto simp: capDigit_def Let_def)
  have fold: "s (foldDigit x) = s x" for x
    by (simp add: foldDigit_def Let_def)
  have adv: "length (advance (s st)) < length (s st)"
    using d by (auto simp: isDigit_def current_def advance_def split: list.splits)
  have "length (s (digitStep st)) \<le> length (advance (s st))"
    using le_trans [OF cap]
    by (auto simp: digitStep_def getAndAdvance_def Let_def fold)
  with adv show "(digitStep st, st) \<in> measure (\<lambda>st. length (s st))"
    by simp
next
  fix st :: locals and x :: locals
  assume "\<not> isDigit (current (s st))"
    and "decPointIndex st = 0 \<and> current (s st) = chr CHR ''.''"
    and "x = st\<lparr>s := advance (s st), decPointIndex := 1\<rparr>"
  then show "(x, st) \<in> measure (\<lambda>st. length (s st))"
    by (auto simp: current_def advance_def split: list.splits)
qed

declare mainLoop.simps [simp del]

text \<open>The digits of the exponent.\<close>

function exponentLoop :: "locals \<Rightarrow> locals" where
  "exponentLoop st =
     (if isDigit (current (s st)) then
        exponentLoop
          (let (c, p) = getAndAdvance (s st)
           in st\<lparr>exponent := exponent st * 10 + (int c - int (chr CHR ''0'')), s := p\<rparr>)
      else st)"
  by pat_completeness auto
termination
  by (relation "measure (\<lambda>st. length (s st))")
     (auto simp: isDigit_def current_def advance_def getAndAdvance_def split: list.splits)

declare exponentLoop.simps [simp del]

text \<open>The exponent part, read only after a digit has been found.\<close>

definition readExponent :: "locals \<Rightarrow> locals" where
  "readExponent st =
     (let c = current (s st)
      in if (c = chr CHR ''e'' \<or> c = chr CHR ''E'') \<and> digitsFound st then
           (let p = advance (s st);
                negativeExponent = (current p = chr CHR ''-'');
                p1 = (if current p = chr CHR ''-'' \<or> current p = chr CHR ''+''
                      then advance p else p);
                st1 = exponentLoop (st\<lparr>s := p1\<rparr>)
            in if negativeExponent then st1\<lparr>exponent := - exponent st1\<rparr> else st1)
         else st)"

text \<open>The two flushes of the accumulators after the main loop.\<close>

definition flush :: "locals \<Rightarrow> locals" where
  "flush st =
     (let st1 = st\<lparr>result := (result st)
                   (0 := dadd (mulexp10 (result st 0) (exponentAccumulator st 0))
                              (accumulator st 0))\<rparr>
      in if decPointIndex st1 \<noteq> 0
         then st1\<lparr>result := (result st1)
                   (1 := dadd (mulexp10 (result st1 1) (exponentAccumulator st1 1))
                              (accumulator st1 1))\<rparr>
         else st1)"

text \<open>The value returned after the exponent has been read.\<close>

definition finish :: "locals \<Rightarrow> double" where
  "finish st =
     (let r = mulexp10 (result st 0) (exponent st + exponentAdjustment st 0);
          r1 = (if decPointIndex st \<noteq> 0
                then dadd r (mulexp10 (result st 1) (exponent st - exponentAdjustment st 1))
                else r)
      in if isNegative st then dneg r1 else r1)"

text \<open>
  The whole function: the value it returns, together with its local variables at the
  \<open>return\<close> statement. The cursor \<open>s\<close> is a local copy of the parameter.
\<close>

definition getDoubleValue_run :: "cursor \<Rightarrow> double \<times> locals" where
  "getDoubleValue_run text =
     (let st = readSign (initial text)
      in case special (s st) of
           Some d \<Rightarrow> (d, st)
         | None \<Rightarrow> (let st1 = readExponent (flush (mainLoop st)) in (finish st1, st1)))"

definition getDoubleValue :: "cursor \<Rightarrow> double" where
  "getDoubleValue text = fst (getDoubleValue_run text)"

text \<open>
  A call seen from the caller: the value returned and the caller's cursor after the call.
  The parameter is \<open>const CharPointerType& text\<close> and the function scans the local copy
  \<open>s\<close>, so the caller's cursor is the one that was passed in.
\<close>

definition getDoubleValue_call :: "cursor \<Rightarrow> double \<times> cursor" where
  "getDoubleValue_call text = (getDoubleValue text, text)"

section \<open>getIntValue\<close>

text \<open>
  \<open>IntType\<close> is a fixed-width integer, a word of any length; its arithmetic wraps
  around. The loop returns the value and the local cursor, which has read the code point
  that ended the loop.
\<close>

function getIntValue_loop :: "'a::len word \<Rightarrow> cursor \<Rightarrow> 'a word \<times> cursor" where
  "getIntValue_loop v p =
     (let (c, p1) = getAndAdvance p
      in if chr CHR ''0'' \<le> c \<and> c \<le> chr CHR ''9''
         then getIntValue_loop (v * 10 + of_nat (c - chr CHR ''0'')) p1
         else (v, p1))"
  by pat_completeness auto
termination
  by (relation "measure (\<lambda>(v, p). length p)")
     (auto simp: current_def advance_def getAndAdvance_def split: list.splits)

declare getIntValue_loop.simps [simp del]

definition getIntValue_run :: "cursor \<Rightarrow> 'a::len word \<times> cursor" where
  "getIntValue_run text =
     (let p = findEndOfWhitespace text;
          isNeg = (current p = chr CHR ''-'');
          p1 = (if isNeg then advance p else p);
          (v, p2) = getIntValue_loop 0 p1
      in (if isNeg then - v else v, p2))"

definition getIntValue :: "cursor \<Rightarrow> 'a::len word" where
  "getIntValue text = fst (getIntValue_run text)"

definition getIntValue_call :: "cursor \<Rightarrow> 'a::len word \<times> cursor" where
  "getIntValue_call text = (getIntValue text, text)"

text \<open>
  The specification's wording of \<open>parseInteger\<close>: skip the whitespace, take an optional
  minus sign, fold the digits that follow, apply the sign last.
\<close>

definition parseInteger_spec :: "cursor \<Rightarrow> 'a::len word" where
  "parseInteger_spec text =
     (let p = dropWhile isWhitespace (chars text);
          negative = (p \<noteq> [] \<and> hd p = chr CHR ''-'');
          digits = takeWhile isDigit (if negative then tl p else p);
          v = foldl (\<lambda>a c. a * 10 + of_nat (c - chr CHR ''0'')) 0 digits
      in if negative then - v else v)"

section \<open>Copying and comparing\<close>

text \<open>
  The destination of a copy is the list of the code points written so far, a write
  appends one. \<open>getBytesRequiredFor\<close> belongs to the destination's encoding and is a
  parameter; it returns a \<open>size_t\<close>. \<open>maxBytes\<close> and \<open>numBytesDone\<close> are 32-bit \<open>int\<close>s:
  \<open>maxBytes -= bytesNeeded\<close> and \<open>numBytesDone += bytesNeeded\<close> are computed modulo
  \<open>2 ^ 32\<close> and the result is read as a signed value.
\<close>

function copyAndAdvanceUpToBytes_loop ::
  "(juce_wchar \<Rightarrow> nat) \<Rightarrow> juce_wchar list \<Rightarrow> cursor \<Rightarrow> 32 word \<Rightarrow> 32 word
     \<Rightarrow> juce_wchar list \<times> 32 word"
where
  "copyAndAdvanceUpToBytes_loop getBytesRequiredFor dest src maxBytes numBytesDone =
     (let (c, src1) = getAndAdvance src;
          bytesNeeded = getBytesRequiredFor c;
          maxBytes1 = maxBytes - word_of_nat bytesNeeded
      in if sint maxBytes1 < 0 then (dest, numBytesDone)
         else let numBytesDone1 = numBytesDone + word_of_nat bytesNeeded;
                  dest1 = dest @ [c]
              in if c = 0 then (dest1, numBytesDone1)
                 else copyAndAdvanceUpToBytes_loop getBytesRequiredFor dest1 src1
                        maxBytes1 numBytesDone1)"
  by pat_completeness auto
termination
  by (relation "measure (\<lambda>(g, dest, src, m, n). length src)")
     (auto simp: current_def advance_def getAndAdvance_def split: list.splits)

declare copyAndAdvanceUpToBytes_loop.simps [simp del]

definition copyAndAdvanceUpToBytes ::
  "(juce_wchar \<Rightarrow> nat) \<Rightarrow> juce_wchar list \<Rightarrow> cursor \<Rightarrow> 32 word \<Rightarrow> juce_wchar list \<times> 32 word"
where
  "copyAndAdvanceUpToBytes getBytesRequiredFor dest src maxBytes =
     copyAndAdvanceUpToBytes_loop getBytesRequiredFor dest src maxBytes 0"

text \<open>
  \<open>compare\<close> casts each code unit to a 32-bit \<open>int\<close> and subtracts in that type: the
  difference is taken modulo \<open>2 ^ 32\<close> and its sign is that of the signed reading. For
  code units below \<open>2 ^ 31\<close>, which all Unicode code points are, the difference does not
  wrap.
\<close>

function compare :: "cursor \<Rightarrow> cursor \<Rightarrow> int" where
  "compare s1 s2 =
     (let (u1, p1) = getAndAdvance s1;
          (u2, p2) = getAndAdvance s2;
          c1 = (word_of_nat u1 :: 32 word);
          c2 = (word_of_nat u2 :: 32 word);
          diff = c1 - c2
      in if diff \<noteq> 0 then (if sint diff < 0 then - 1 else 1)
         else if c1 = 0 then 0
         else compare p1 p2)"
  by pat_completeness auto
termination
  by (relation "measure (\<lambda>(s1, s2). length s1)")
     (auto simp: current_def advance_def getAndAdvance_def split: list.splits intro!: gr0I)

declare compare.simps [simp del]

text \<open>
  \<open>compareUpTo\<close> is used by \<open>indexOf\<close>, which only tests its result against 0. The
  32-bit difference of two code units is 0 exactly when the units are equal, so here the
  difference is written on \<open>int\<close>.
\<close>

function compareUpTo :: "cursor \<Rightarrow> cursor \<Rightarrow> int \<Rightarrow> int" where
  "compareUpTo s1 s2 maxChars =
     (if maxChars - 1 \<ge> 0 then
        (let (c1, p1) = getAndAdvance s1;
             (c2, p2) = getAndAdvance s2;
             diff = int c1 - int c2
         in if diff \<noteq> 0 then (if diff < 0 then - 1 else 1)
            else if c1 = 0 then 0
            else compareUpTo p1 p2 (maxChars - 1))
      else 0)"
  by pat_completeness auto
termination
  by (relation "measure (\<lambda>(s1, s2, maxChars). nat maxChars)") auto

declare compareUpTo.simps [simp del]

function indexOf_loop :: "cursor \<Rightarrow> cursor \<Rightarrow> int \<Rightarrow> int \<Rightarrow> int" where
  "indexOf_loop haystack needle needleLength index =
     (if compareUpTo haystack needle needleLength = 0 then index
      else let (c, haystack1) = getAndAdvance haystack
           in if c = 0 then - 1
              else indexOf_loop haystack1 needle needleLength (index + 1))"
  by pat_completeness auto
termination
  by (relation "measure (\<lambda>(haystack, needle, n, i). length haystack)")
     (auto simp: current_def advance_def getAndAdvance_def split: list.splits)

declare indexOf_loop.simps [simp del]

definition indexOf :: "cursor \<Rightarrow> cursor \<Rightarrow> int" where
  "indexOf haystack needle = indexOf_loop haystack needle (length_cp needle) 0"

section \<open>Definitions for the statements\<close>

text \<open>Without a digit the accumulators and partial results are still zero.\<close>

definition untouched :: "locals \<Rightarrow> bool" where
  "untouched st \<longleftrightarrow>
     \<not> digitsFound st \<and> exponent st = 0
     \<and> result st 0 = Finite False 0 0 \<and> result st 1 = Finite False 0 0
     \<and> accumulator st 0 = Finite False 0 0 \<and> accumulator st 1 = Finite False 0 0"

text \<open>
  The specification's wording of \<open>indexOf\<close>: the first offset at which the needle is a
  prefix of what remains of the haystack.
\<close>

fun indexOf_spec :: "juce_wchar list \<Rightarrow> juce_wchar list \<Rightarrow> nat option" where
  "indexOf_spec needle [] = (if needle = [] then Some 0 else None)"
| "indexOf_spec needle (c # cs) =
     (if prefix needle (c # cs) then Some 0 else map_option Suc (indexOf_spec needle cs))"

text \<open>
  The specification's wording of the copy with a byte budget, on the code points of the
  source followed by the terminator: write each one while its size fits the budget left.
\<close>

fun copy_spec :: "(juce_wchar \<Rightarrow> nat) \<Rightarrow> juce_wchar list \<Rightarrow> int \<Rightarrow> juce_wchar list" where
  "copy_spec g [] m = []"
| "copy_spec g (c # cs) m =
     (if m < int (g c) then [] else c # copy_spec g cs (m - int (g c)))"

section \<open>Facts about cursors\<close>

lemma current_simps [simp]: "current [] = 0" "current (c # cs) = c"
  by (simp_all add: current_def)

lemma advance_simps [simp]:
  "advance [] = []" "c \<noteq> 0 \<Longrightarrow> advance (c # cs) = cs" "advance (0 # cs) = 0 # cs"
  by (simp_all add: advance_def)

lemma subscript_simps [simp]:
  "subscript p 0 = current p" "subscript p (Suc n) = subscript (advance p) n"
  by (simp_all add: subscript_def funpow_swap1)

lemma isWhitespace_nonzero: "isWhitespace c \<Longrightarrow> c \<noteq> 0"
  by (auto simp: isWhitespace_def)

lemma isDigit_nonzero: "isDigit c \<Longrightarrow> c \<noteq> 0"
  by (auto simp: isDigit_def)

lemma findEndOfWhitespace_dropWhile: "findEndOfWhitespace p = dropWhile isWhitespace p"
proof (induction p)
  case Nil
  show ?case
    by (subst findEndOfWhitespace.simps) (simp add: isWhitespace_def)
next
  case (Cons c cs)
  show ?case
  proof (cases "isWhitespace c")
    case True
    with Cons show ?thesis
      by (subst findEndOfWhitespace.simps) (simp add: isWhitespace_nonzero)
  next
    case False
    then show ?thesis
      by (subst findEndOfWhitespace.simps) simp
  qed
qed

lemma findEndOfWhitespace_append:
  "\<forall>c\<in>set ws. isWhitespace c \<Longrightarrow> \<not> isWhitespace (current p) \<Longrightarrow>
   findEndOfWhitespace (ws @ p) = p"
  by (cases p) (simp_all add: findEndOfWhitespace_dropWhile dropWhile_append)

section \<open>The special values of getDoubleValue\<close>

text \<open>
  C1: for \<open>"-inf"\<close>, also after whitespace, \<open>getDoubleValue\<close> is claimed to return negative
  infinity, and positive infinity for \<open>"inf"\<close> and \<open>"INF"\<close>. The function records the
  minus sign in \<open>isNegative\<close>, but the \<open>return\<close> of the second \<open>switch\<close> does not apply
  it: all four texts give positive infinity.
\<close>

theorem getDoubleValue_inf_sign_dropped:
  "getDoubleValue (text_of ''-inf'') = Infinity False
   \<and> getDoubleValue (text_of '' -inf'') = Infinity False
   \<and> getDoubleValue (text_of ''inf'') = Infinity False
   \<and> getDoubleValue (text_of ''INF'') = Infinity False"
  by (simp add: getDoubleValue_def getDoubleValue_run_def initial_def readSign_def special_def
      findEndOfWhitespace_dropWhile isWhitespace_def text_of_def eval_nat_numeral)

lemma readSign_initial:
  assumes "\<forall>c\<in>set ws. isWhitespace c"
    and "sig \<in> {[], [chr CHR ''-''], [chr CHR ''+'']}"
    and "\<not> isWhitespace (current rest)"
    and "current rest \<noteq> chr CHR ''-''" and "current rest \<noteq> chr CHR ''+''"
  shows "readSign (initial (ws @ sig @ rest)) =
         (initial [])\<lparr>isNegative := (sig = [chr CHR ''-'']), s := rest\<rparr>"
proof -
  have "\<not> isWhitespace (current (sig @ rest))"
    using assms(2,3) by (auto simp: isWhitespace_def)
  then have "findEndOfWhitespace (ws @ sig @ rest) = sig @ rest"
    using assms(1) by (rule findEndOfWhitespace_append [rotated])
  then show ?thesis
    using assms(2,4,5)
    by (auto simp: readSign_def initial_def Let_def findEndOfWhitespace_dropWhile)
qed

lemma mulexp10_zero: "mulexp10 (Finite sg 0 e) x = Finite sg 0 0"
  by (simp add: scaled_def round64_def)

lemma dadd_zero: "dadd (Finite a 0 e) (Finite b 0 f) = Finite (a \<and> b) 0 0"
  by (simp add: aligned_def)

declare mulexp10.simps [simp del] dadd.simps [simp del] dmul.simps [simp del]
  dgt.simps [simp del]

lemma flush_fields [simp]:
  "digitsFound (flush st) = digitsFound st" "s (flush st) = s st"
  "exponent (flush st) = exponent st" "isNegative (flush st) = isNegative st"
  "decPointIndex (flush st) = decPointIndex st"
  "exponentAdjustment (flush st) = exponentAdjustment st"
  by (simp_all add: flush_def Let_def)

lemma flush_result:
  "result (flush st) 0 =
     dadd (mulexp10 (result st 0) (exponentAccumulator st 0)) (accumulator st 0)"
  "decPointIndex st \<noteq> 0 \<Longrightarrow> result (flush st) (Suc 0) =
     dadd (mulexp10 (result st 1) (exponentAccumulator st 1)) (accumulator st 1)"
  by (simp_all add: flush_def Let_def)

lemma untouched_value:
  assumes "untouched st"
  shows "finish (readExponent (flush st)) = Finite (isNegative st) 0 0"
    and "readExponent (flush st) = flush st"
proof -
  show r: "readExponent (flush st) = flush st"
    using assms by (simp add: readExponent_def untouched_def)
  have "finish (flush st) = Finite (isNegative st) 0 0"
    using assms
    by (cases "decPointIndex st = 0")
       (simp_all add: finish_def flush_result untouched_def mulexp10_zero dadd_zero Let_def)
  with r show "finish (readExponent (flush st)) = Finite (isNegative st) 0 0"
    by simp
qed

lemma untouched_start: "untouched ((initial [])\<lparr>isNegative := b, s := p\<rparr>)"
  by (simp add: untouched_def initial_def)

lemma mainLoop_stop:
  "\<not> isDigit (current (s st)) \<Longrightarrow> current (s st) \<noteq> chr CHR ''.'' \<Longrightarrow> mainLoop st = st"
  by (subst mainLoop.simps) simp

lemma readExponent_no_digits: "\<not> digitsFound st \<Longrightarrow> readExponent st = st"
  by (simp add: readExponent_def)

text \<open>
  C4: after the whitespace and an optional sign, the next three code points decide: when
  they are \<open>n\<close>, \<open>a\<close>, \<open>n\<close> in either case the value is a NaN, when they are \<open>i\<close>,
  \<open>n\<close>, \<open>f\<close> in either case it is an infinity (the positive one unless a minus sign was
  read), whatever follows them and before any digit is read.
\<close>

theorem getDoubleValue_nan_inf_prefix:
  assumes "\<forall>c\<in>set ws. isWhitespace c"
    and "sig \<in> {[], [chr CHR ''-''], [chr CHR ''+'']}"
  shows "(c1 \<in> {chr CHR ''n'', chr CHR ''N''} \<and> c2 \<in> {chr CHR ''a'', chr CHR ''A''}
            \<and> c3 \<in> {chr CHR ''n'', chr CHR ''N''}
          \<longrightarrow> getDoubleValue (ws @ sig @ c1 # c2 # c3 # rest) = NaN)
       \<and> (c1 \<in> {chr CHR ''i'', chr CHR ''I''} \<and> c2 \<in> {chr CHR ''n'', chr CHR ''N''}
            \<and> c3 \<in> {chr CHR ''f'', chr CHR ''F''}
          \<longrightarrow> (\<exists>sg. getDoubleValue (ws @ sig @ c1 # c2 # c3 # rest) = Infinity sg)
              \<and> (sig \<noteq> [chr CHR ''-'']
                   \<longrightarrow> getDoubleValue (ws @ sig @ c1 # c2 # c3 # rest) = Infinity False))"
proof (intro conjI impI)
  assume c: "c1 \<in> {chr CHR ''n'', chr CHR ''N''} \<and> c2 \<in> {chr CHR ''a'', chr CHR ''A''}
            \<and> c3 \<in> {chr CHR ''n'', chr CHR ''N''}"
  then have "readSign (initial (ws @ sig @ c1 # c2 # c3 # rest)) =
         (initial [])\<lparr>isNegative := (sig = [chr CHR ''-'']), s := c1 # c2 # c3 # rest\<rparr>"
    by (intro readSign_initial assms) (auto simp: isWhitespace_def)
  moreover have "special (c1 # c2 # c3 # rest) = Some NaN"
    using c by (auto simp: special_def eval_nat_numeral)
  ultimately show "getDoubleValue (ws @ sig @ c1 # c2 # c3 # rest) = NaN"
    by (simp add: getDoubleValue_def getDoubleValue_run_def)
next
  assume c: "c1 \<in> {chr CHR ''i'', chr CHR ''I''} \<and> c2 \<in> {chr CHR ''n'', chr CHR ''N''}
            \<and> c3 \<in> {chr CHR ''f'', chr CHR ''F''}"
  then have "readSign (initial (ws @ sig @ c1 # c2 # c3 # rest)) =
         (initial [])\<lparr>isNegative := (sig = [chr CHR ''-'']), s := c1 # c2 # c3 # rest\<rparr>"
    by (intro readSign_initial assms) (auto simp: isWhitespace_def)
  moreover have "special (c1 # c2 # c3 # rest) = Some (Infinity False)"
    using c by (auto simp: special_def eval_nat_numeral)
  ultimately have inf: "getDoubleValue (ws @ sig @ c1 # c2 # c3 # rest) = Infinity False"
    by (simp add: getDoubleValue_def getDoubleValue_run_def)
  then show "\<exists>sg. getDoubleValue (ws @ sig @ c1 # c2 # c3 # rest) = Infinity sg"
    by blast
  from inf show "getDoubleValue (ws @ sig @ c1 # c2 # c3 # rest) = Infinity False"
    by simp
qed

theorem getDoubleValue_nan_inf_prefix_witness:
  "getDoubleValue (text_of ''  -NaN(7)'') = NaN
   \<and> getDoubleValue (text_of ''+Infinity'') = Infinity False"
proof -
  have ws: "\<forall>c\<in>set [chr CHR '' '', chr CHR '' '']. isWhitespace c" "\<forall>c\<in>set []. isWhitespace c"
    by (simp_all add: isWhitespace_def)
  show ?thesis
    using getDoubleValue_nan_inf_prefix [OF ws(1), of "[chr CHR ''-'']" "chr CHR ''N''"
        "chr CHR ''a''" "chr CHR ''N''" "text_of ''(7)''"]
      getDoubleValue_nan_inf_prefix [OF ws(2), of "[chr CHR ''+'']" "chr CHR ''I''"
        "chr CHR ''n''" "chr CHR ''f''" "text_of ''inity''"]
    by (simp add: text_of_def)
qed

text \<open>
  C10: the exponent is read only when a digit was found before the marker. When the text
  has \<open>e\<close> or \<open>E\<close> right after the whitespace and the optional sign, the exponent stays
  0, the cursor \<open>s\<close> stays on the marker, and the value is a zero (equal to \<open>0.0\<close>; its
  sign bit is set by a minus sign).
\<close>

theorem getDoubleValue_exponent_needs_digit:
  assumes "\<forall>c\<in>set ws. isWhitespace c"
    and "sig \<in> {[], [chr CHR ''-''], [chr CHR ''+'']}"
    and "c \<in> {chr CHR ''e'', chr CHR ''E''}"
  shows "getDoubleValue (ws @ sig @ c # rest) = Finite (sig = [chr CHR ''-'']) 0 0
       \<and> deq (getDoubleValue (ws @ sig @ c # rest)) (Finite False 0 0)
       \<and> exponent (snd (getDoubleValue_run (ws @ sig @ c # rest))) = 0
       \<and> s (snd (getDoubleValue_run (ws @ sig @ c # rest))) = c # rest
       \<and> (\<forall>st. \<not> digitsFound st \<longrightarrow> readExponent st = st)"
proof -
  define b where "b = (sig = [chr CHR ''-''])"
  let ?st = "(initial [])\<lparr>isNegative := b, s := c # rest\<rparr>"
  have c: "\<not> isWhitespace (current (c # rest))" "current (c # rest) \<noteq> chr CHR ''-''"
    "current (c # rest) \<noteq> chr CHR ''+''" "\<not> isDigit c" "c \<noteq> chr CHR ''.''"
    "special (c # rest) = None"
    using assms(3) by (elim insertE; simp add: isWhitespace_def isDigit_def special_def)+
  have st: "readSign (initial (ws @ sig @ c # rest)) = ?st"
    unfolding b_def using assms(1,2) c(1,2,3) by (rule readSign_initial)
  have ml: "mainLoop ?st = ?st"
    using c(4,5) by (intro mainLoop_stop) simp_all
  have run: "getDoubleValue_run (ws @ sig @ c # rest) = (Finite b 0 0, flush ?st)"
    using untouched_value [OF untouched_start [where b = b and p = "c # rest"]]
    by (simp add: getDoubleValue_run_def st c(6) ml)
  have ex: "exponent ?st = 0"
    by (simp add: initial_def)
  have "getDoubleValue (ws @ sig @ c # rest) = Finite b 0 0
       \<and> deq (getDoubleValue (ws @ sig @ c # rest)) (Finite False 0 0)
       \<and> exponent (snd (getDoubleValue_run (ws @ sig @ c # rest))) = 0
       \<and> s (snd (getDoubleValue_run (ws @ sig @ c # rest))) = c # rest
       \<and> (\<forall>st. \<not> digitsFound st \<longrightarrow> readExponent st = st)"
    by (simp add: getDoubleValue_def run readExponent_no_digits aligned_def ex)
  then show ?thesis
    unfolding b_def .
qed

theorem getDoubleValue_exponent_needs_digit_witness:
  "getDoubleValue (text_of ''e5'') = Finite False 0 0
   \<and> s (snd (getDoubleValue_run (text_of ''e5''))) = text_of ''e5''
   \<and> getDoubleValue (text_of '' -E5'') = Finite True 0 0
   \<and> exponent (snd (getDoubleValue_run (text_of '' -E5''))) = 0"
proof -
  have ws: "\<forall>c\<in>set [chr CHR '' '']. isWhitespace c" "\<forall>c\<in>set []. isWhitespace c"
    by (simp_all add: isWhitespace_def)
  show ?thesis
    using getDoubleValue_exponent_needs_digit [OF ws(2), of "[]" "chr CHR ''e''" "text_of ''5''"]
      getDoubleValue_exponent_needs_digit [OF ws(1), of "[chr CHR ''-'']" "chr CHR ''E''" "text_of ''5''"]
    by (simp add: text_of_def)
qed

section \<open>The main loop\<close>

lemma mainLoop_digit: "isDigit (current (s st)) \<Longrightarrow> mainLoop st = mainLoop (digitStep st)"
  by (subst mainLoop.simps) simp

lemma mainLoop_point:
  "\<not> isDigit (current (s st)) \<Longrightarrow> decPointIndex st = 0 \<Longrightarrow> current (s st) = chr CHR ''.'' \<Longrightarrow>
   \<not> numSignificantDigits st > maxSignificantDigits \<Longrightarrow>
   mainLoop st = mainLoop (st\<lparr>s := advance (s st), decPointIndex := 1\<rparr>)"
  by (subst mainLoop.simps) simp

lemma mainLoop_point_capped:
  "\<not> isDigit (current (s st)) \<Longrightarrow> decPointIndex st = 0 \<Longrightarrow> current (s st) = chr CHR ''.'' \<Longrightarrow>
   numSignificantDigits st > maxSignificantDigits \<Longrightarrow>
   mainLoop st = st\<lparr>s := dropWhile isDigit (advance (s st)), decPointIndex := 1\<rparr>"
  by (subst mainLoop.simps) simp

lemma mainLoop_other:
  "\<not> isDigit (current (s st)) \<Longrightarrow> \<not> (decPointIndex st = 0 \<and> current (s st) = chr CHR ''.'') \<Longrightarrow>
   mainLoop st = st"
  by (subst mainLoop.simps) auto

lemma mainLoop_invariant:
  assumes "P st"
    and digit: "\<And>x. P x \<Longrightarrow> isDigit (current (s x)) \<Longrightarrow> P (digitStep x)"
    and point: "\<And>x. P x \<Longrightarrow> current (s x) = chr CHR ''.'' \<Longrightarrow>
                  P (x\<lparr>s := advance (s x), decPointIndex := 1\<rparr>)"
    and capped: "\<And>x. P x \<Longrightarrow> current (s x) = chr CHR ''.'' \<Longrightarrow>
                  P (x\<lparr>s := dropWhile isDigit (advance (s x)), decPointIndex := 1\<rparr>)"
  shows "P (mainLoop st)"
  using assms(1)
proof (induction st rule: mainLoop.induct)
  case (1 st)
  show ?case
  proof (cases "isDigit (current (s st))")
    case True
    then show ?thesis
      using "1.IH"(1) [OF True digit [OF "1.prems" True]] by (simp add: mainLoop_digit)
  next
    case nd: False
    show ?thesis
    proof (cases "decPointIndex st = 0 \<and> current (s st) = chr CHR ''.''")
      case dot: True
      show ?thesis
      proof (cases "numSignificantDigits st > maxSignificantDigits")
        case True
        then show ?thesis
          using capped [OF "1.prems"] nd dot by (simp add: mainLoop_point_capped)
      next
        case False
        then have "P (mainLoop (st\<lparr>s := advance (s st), decPointIndex := 1\<rparr>))"
          using "1.IH"(2) [OF nd dot refl] point [OF "1.prems"] dot by simp
        then show ?thesis
          using nd dot False by (simp add: mainLoop_point)
      qed
    next
      case False
      then show ?thesis
        using "1.prems" nd by (simp add: mainLoop_other)
    qed
  qed
qed

lemma skipDigits_digitsFound [simp]: "digitsFound (skipDigits st) = digitsFound st"
proof (induction st rule: skipDigits.induct)
  case (1 st)
  show ?case
  proof (cases "isDigit (current (s st))")
    case True
    with 1 show ?thesis
      by (subst skipDigits.simps) (simp add: Let_def)
  next
    case False
    then show ?thesis
      by (subst skipDigits.simps) simp
  qed
qed

lemma digitStep_digitsFound [simp]: "digitsFound (digitStep st)"
  by (simp add: digitStep_def capDigit_def foldDigit_def getAndAdvance_def Let_def)

lemma exponentLoop_digitsFound [simp]: "digitsFound (exponentLoop st) = digitsFound st"
proof (induction st rule: exponentLoop.induct)
  case (1 st)
  show ?case
  proof (cases "isDigit (current (s st))")
    case True
    with 1 show ?thesis
      by (subst exponentLoop.simps) (simp add: getAndAdvance_def)
  next
    case False
    then show ?thesis
      by (subst exponentLoop.simps) simp
  qed
qed

lemma readExponent_digitsFound [simp]: "digitsFound (readExponent st) = digitsFound st"
  by (simp add: readExponent_def Let_def)

lemma mainLoop_untouched:
  assumes "untouched st" and "\<not> digitsFound (mainLoop st)"
  shows "untouched (mainLoop st) \<and> isNegative (mainLoop st) = isNegative st"
proof -
  have "digitsFound (mainLoop st)
        \<or> (untouched (mainLoop st) \<and> isNegative (mainLoop st) = isNegative st)"
    by (rule mainLoop_invariant) (use assms(1) in \<open>auto simp: untouched_def\<close>)
  with assms(2) show ?thesis
    by simp
qed

lemma untouched_readSign_initial: "untouched (readSign (initial text))"
  by (simp add: untouched_def readSign_def initial_def Let_def)

lemma getDoubleValue_no_digit:
  assumes "special (s (readSign (initial text))) = None"
    and "\<not> digitsFound (snd (getDoubleValue_run text))"
  shows "getDoubleValue text = Finite (isNegative (readSign (initial text))) 0 0"
proof -
  let ?st = "readSign (initial text)"
  have run: "getDoubleValue_run text =
             (finish (readExponent (flush (mainLoop ?st))), readExponent (flush (mainLoop ?st)))"
    using assms(1) by (simp add: getDoubleValue_run_def Let_def)
  with assms(2) have "\<not> digitsFound (mainLoop ?st)"
    by simp
  from mainLoop_untouched [OF untouched_readSign_initial this]
  have "untouched (mainLoop ?st)" and "isNegative (mainLoop ?st) = isNegative ?st"
    by simp_all
  with untouched_value(1) [of "mainLoop ?st"] show ?thesis
    by (simp add: getDoubleValue_def run)
qed

lemmas run_simps = getDoubleValue_def getDoubleValue_run_def initial_def readSign_def special_def
  findEndOfWhitespace_dropWhile text_of_def isWhitespace_def isDigit_def mainLoop.simps
  digitStep_def getAndAdvance_def flush_def readExponent_def finish_def mulexp10_zero dadd_zero
  maxSignificantDigits_def Let_def

lemma dot_x_run:
  "special (s (readSign (initial (text_of ''  -.x'')))) = None"
  "\<not> digitsFound (snd (getDoubleValue_run (text_of ''  -.x'')))"
  "isNegative (readSign (initial (text_of ''  -.x'')))"
  by (simp_all add: run_simps)

text \<open>
  C5: when no digit is found and neither special case matches, \<open>getDoubleValue\<close> returns
  a zero with the sign that was read. The empty text and \<open>"abc"\<close> give \<open>0.0\<close>, \<open>"-"\<close> and
  \<open>"-0"\<close> give negative zero, \<open>"+"\<close> gives positive zero.
\<close>

theorem getDoubleValue_without_digits:
  "(special (s (readSign (initial text))) = None
      \<and> \<not> digitsFound (snd (getDoubleValue_run text))
    \<longrightarrow> getDoubleValue text = Finite (isNegative (readSign (initial text))) 0 0)
   \<and> getDoubleValue (text_of []) = Finite False 0 0
   \<and> getDoubleValue (text_of ''abc'') = Finite False 0 0
   \<and> getDoubleValue (text_of ''-'') = Finite True 0 0
   \<and> getDoubleValue (text_of ''-0'') = Finite True 0 0
   \<and> getDoubleValue (text_of ''+'') = Finite False 0 0"
proof (intro conjI impI)
  assume "special (s (readSign (initial text))) = None
      \<and> \<not> digitsFound (snd (getDoubleValue_run text))"
  then show "getDoubleValue text = Finite (isNegative (readSign (initial text))) 0 0"
    using getDoubleValue_no_digit by blast
qed (simp_all add: run_simps)

theorem getDoubleValue_without_digits_witness:
  "getDoubleValue (text_of ''  -.x'') = Finite True 0 0"
  using getDoubleValue_without_digits [of "text_of ''  -.x''"] dot_x_run
  by simp


section \<open>compare\<close>

lemma compare_unfold:
  "compare s1 s2 =
     (if (word_of_nat (current s1) :: 32 word) \<noteq> word_of_nat (current s2)
      then (if sint ((word_of_nat (current s1) :: 32 word) - word_of_nat (current s2)) < 0
            then - 1 else 1)
      else if (word_of_nat (current s1) :: 32 word) = 0 then 0
      else compare (advance s1) (advance s2))"
  by (subst compare.simps) (auto simp: getAndAdvance_def Let_def)

lemma word_of_nat_nonzero: "(word_of_nat c :: 32 word) \<noteq> 0 \<Longrightarrow> c \<noteq> 0"
  by (rule ccontr) simp

lemma compare_values: "compare a b \<in> {- 1, 0, 1}"
proof (induction a arbitrary: b)
  case Nil
  show ?case
    by (subst compare_unfold) simp
next
  case (Cons c cs)
  show ?case
  proof (cases "(word_of_nat c :: 32 word) = 0
                \<or> (word_of_nat c :: 32 word) \<noteq> word_of_nat (current b)")
    case True
    then show ?thesis
      by (subst compare_unfold) auto
  next
    case False
    then have c: "c \<noteq> 0" and "current b \<noteq> 0"
      using word_of_nat_nonzero [of c] word_of_nat_nonzero [of "current b"] by auto
    then obtain d bs where b: "b = d # bs" and d: "d \<noteq> 0"
      by (cases b) auto
    have "compare (c # cs) b = compare cs bs"
      using False c d unfolding b by (subst compare_unfold) auto
    with Cons.IH [of bs] show ?thesis
      by simp
  qed
qed

lemma compare_same: "compare a a = 0"
proof (induction a)
  case Nil
  show ?case
    by (subst compare_unfold) simp
next
  case (Cons c cs)
  show ?case
  proof (cases "(word_of_nat c :: 32 word) = 0")
    case True
    then show ?thesis
      by (subst compare_unfold) simp
  next
    case False
    then have "c \<noteq> 0"
      by (rule word_of_nat_nonzero)
    with Cons False show ?thesis
      by (subst compare_unfold) simp
  qed
qed

lemma sint_word_of_nat_small: "c < 2 ^ 31 \<Longrightarrow> sint (word_of_nat c :: 32 word) = int c"
proof -
  assume "c < 2 ^ 31"
  then have "int c < 2 ^ 31"
    by (metis of_nat_less_iff of_nat_numeral of_nat_power)
  then have "signed_take_bit 31 (int c) = int c"
    by (intro signed_take_bit_int_eq_self) simp_all
  moreover have "sint (word_of_nat c :: 32 word) = signed_take_bit 31 (int c)"
    using sint_sbintrunc' [where 'a = 32, of "int c"] by simp
  ultimately show ?thesis
    by simp
qed

lemma word_of_nat_diff_small:
  assumes "c < 2 ^ 31" and "d < 2 ^ 31"
  shows "(word_of_nat c :: 32 word) = word_of_nat d \<longleftrightarrow> c = d"
    and "sint ((word_of_nat c :: 32 word) - word_of_nat d) = int c - int d"
proof -
  have "c < 2 ^ 32" "d < 2 ^ 32"
    using assms by simp_all
  then show "(word_of_nat c :: 32 word) = word_of_nat d \<longleftrightarrow> c = d"
    by (simp add: word_of_nat_eq_iff take_bit_nat_eq_self)
  have ic: "int c < 2 ^ 31" "int d < 2 ^ 31"
    using assms by (metis of_nat_less_iff of_nat_numeral of_nat_power)+
  then have "signed_take_bit 31 (int c - int d) = int c - int d"
    by (intro signed_take_bit_int_eq_self) simp_all
  then show "sint ((word_of_nat c :: 32 word) - word_of_nat d) = int c - int d"
    using assms by (simp add: sint_word_diff sint_word_of_nat_small)
qed

lemma compare_unfold_small:
  assumes "current s1 < 2 ^ 31" and "current s2 < 2 ^ 31"
  shows "compare s1 s2 =
     (if current s1 \<noteq> current s2 then (if current s1 < current s2 then - 1 else 1)
      else if current s1 = 0 then 0
      else compare (advance s1) (advance s2))"
proof -
  have zero: "(word_of_nat (current s1) :: 32 word) = 0 \<longleftrightarrow> current s1 = 0"
    using word_of_nat_diff_small(1) [OF assms(1), of 0] by simp
  show ?thesis
    using word_of_nat_diff_small [OF assms] zero
    by (subst compare_unfold) auto
qed

lemma compare_swap:
  "\<forall>c\<in>set a \<union> set b. c < 2 ^ 31 \<Longrightarrow> compare a b = - compare b a"
proof (induction a arbitrary: b)
  case Nil
  then have "current b < 2 ^ 31"
    by (cases b) simp_all
  then show ?case
    by (subst compare_unfold_small, simp, simp, subst (2) compare_unfold_small) auto
next
  case (Cons c cs)
  then have small: "c < 2 ^ 31" "current b < 2 ^ 31"
    by (cases b; simp)+
  show ?case
  proof (cases "c = 0 \<or> current b \<noteq> c")
    case True
    then show ?thesis
      using small
      by (subst compare_unfold_small, simp, simp, subst (2) compare_unfold_small) auto
  next
    case False
    then obtain bs where b: "b = c # bs"
      by (cases b) auto
    have "compare (c # cs) b = compare cs bs" "compare b (c # cs) = compare bs cs"
      using False small unfolding b by (subst compare_unfold_small, simp, simp, simp)+
    moreover have "\<forall>c\<in>set cs \<union> set bs. c < 2 ^ 31"
      using Cons.prems b by auto
    ultimately show ?thesis
      using Cons.IH [of bs] by simp
  qed
qed

text \<open>
  C7 claims that \<open>compare\<close> is antisymmetric for every pair of cursors. The difference of
  the code unit \<open>0x80000000\<close> and the terminator is the least \<open>int\<close> in both orders, so
  \<open>compare\<close> returns \<open>- 1\<close> both ways.
\<close>

theorem compare_antisymmetry_counterexample:
  "compare [2147483648] [] = - 1 \<and> compare [] [2147483648] = - 1
   \<and> compare [2147483648] [] \<noteq> - sgn (compare [] [2147483648])"
  by (simp add: compare_unfold)

text \<open>
  C7, as the code has it: \<open>compare\<close> returns \<open>- 1\<close>, \<open>0\<close> or \<open>1\<close>; a cursor compares equal
  to itself; and when every code unit of the two texts is below \<open>2 ^ 31\<close>, as every
  Unicode code point is, swapping the arguments negates the sign of the result.
\<close>

theorem compare_sign_reflexive_antisymmetric:
  "compare a b \<in> {- 1, 0, 1} \<and> compare a a = 0
   \<and> ((\<forall>c\<in>set a \<union> set b. c < 2 ^ 31) \<longrightarrow> compare a b = - sgn (compare b a))"
proof -
  have "sgn (compare b a) = compare b a"
    using compare_values [of b a] by auto
  then show ?thesis
    using compare_values [of a b] compare_same [of a] compare_swap [of a b] by simp
qed

theorem compare_sign_reflexive_antisymmetric_witness:
  "compare (text_of ''abc'') (text_of ''abd'') = - 1
   \<and> compare (text_of ''abd'') (text_of ''abc'') = 1
   \<and> compare (text_of ''abc'') (text_of ''abc'') = 0"
proof -
  have small: "\<forall>c\<in>set (text_of ''abd'') \<union> set (text_of ''abc''). c < 2 ^ 31"
    by (simp add: text_of_def)
  have "compare (text_of ''abc'') (text_of ''abd'') = - 1"
    by (simp add: compare_unfold text_of_def)
  then show ?thesis
    using compare_sign_reflexive_antisymmetric [of "text_of ''abd''" "text_of ''abc''"]
      compare_sign_reflexive_antisymmetric [of "text_of ''abc''" "text_of ''abc''"] small
    by simp
qed

section \<open>indexOf\<close>

lemma chars_simps [simp]:
  "chars [] = []" "chars (0 # cs) = []" "c \<noteq> 0 \<Longrightarrow> chars (c # cs) = c # chars cs"
  by (simp_all add: chars_def)

lemma current_zero_chars: "current p = 0 \<longleftrightarrow> chars p = []"
  by (cases p) (auto simp: chars_def)

lemma length_cp_chars: "length_cp p = int (length (chars p))"
proof (induction p)
  case Nil
  show ?case
    by (subst length_cp.simps) simp
next
  case (Cons c cs)
  then show ?case
    by (subst length_cp.simps) (cases "c = 0"; simp)
qed

lemma compareUpTo_unfold:
  "compareUpTo s1 s2 maxChars =
     (if maxChars \<le> 0 then 0
      else if current s1 \<noteq> current s2 then (if current s1 < current s2 then - 1 else 1)
      else if current s1 = 0 then 0
      else compareUpTo (advance s1) (advance s2) (maxChars - 1))"
  by (subst compareUpTo.simps) (auto simp: getAndAdvance_def Let_def)

lemma compareUpTo_needle:
  "compareUpTo haystack needle (int (length (chars needle))) = 0
     \<longleftrightarrow> prefix (chars needle) (chars haystack)"
proof (induction needle arbitrary: haystack)
  case Nil
  show ?case
    by (subst compareUpTo_unfold) simp
next
  case (Cons c cs)
  show ?case
  proof (cases "c = 0")
    case True
    then show ?thesis
      by (subst compareUpTo_unfold) simp
  next
    case c: False
    show ?thesis
    proof (cases "current haystack = c")
      case True
      then obtain hs where h: "haystack = c # hs"
        using c by (cases haystack) auto
      have "compareUpTo haystack (c # cs) (int (length (chars (c # cs)))) =
            compareUpTo hs cs (int (length (chars cs)))"
        unfolding h using c by (subst compareUpTo_unfold) simp
      with Cons.IH [of hs] c show ?thesis
        by (simp add: h)
    next
      case False
      then have "compareUpTo haystack (c # cs) (int (length (chars (c # cs)))) \<noteq> 0"
        using c by (subst compareUpTo_unfold) auto
      moreover have "\<not> prefix (chars (c # cs)) (chars haystack)"
        using False c by (cases haystack) (auto simp: chars_def)
      ultimately show ?thesis
        by simp
    qed
  qed
qed

lemma indexOf_loop_unfold:
  "indexOf_loop haystack needle n i =
     (if compareUpTo haystack needle n = 0 then i
      else if current haystack = 0 then - 1
      else indexOf_loop (advance haystack) needle n (i + 1))"
  by (subst indexOf_loop.simps) (simp add: getAndAdvance_def)

lemma indexOf_loop_spec:
  "indexOf_loop haystack needle (int (length (chars needle))) i =
     (case indexOf_spec (chars needle) (chars haystack) of
        Some k \<Rightarrow> i + int k | None \<Rightarrow> - 1)"
proof (induction haystack arbitrary: i)
  case Nil
  show ?case
    by (subst indexOf_loop_unfold) (simp add: compareUpTo_needle)
next
  case (Cons c cs)
  show ?case
  proof (cases "c = 0")
    case True
    then show ?thesis
      by (subst indexOf_loop_unfold) (simp add: compareUpTo_needle)
  next
    case False
    then show ?thesis
      using Cons.IH [of "i + 1"]
      by (subst indexOf_loop_unfold)
         (auto simp: compareUpTo_needle split: option.splits)
  qed
qed

lemma indexOf_spec_Some:
  "indexOf_spec n h = Some k \<longleftrightarrow>
     k \<le> length h \<and> prefix n (drop k h) \<and> (\<forall>j<k. \<not> prefix n (drop j h))"
proof (induction h arbitrary: k)
  case Nil
  show ?case
    by auto
next
  case (Cons c cs)
  show ?case
  proof (cases "prefix n (c # cs)")
    case True
    then show ?thesis
      by (cases k) auto
  next
    case False
    show ?thesis
    proof (cases k)
      case 0
      with False show ?thesis
        by auto
    next
      case (Suc m)
      have "(\<forall>j<Suc m. \<not> prefix n (drop j (c # cs))) \<longleftrightarrow> (\<forall>j<m. \<not> prefix n (drop j cs))"
        using False by (auto simp: less_Suc_eq_0_disj)
      with False Cons.IH [of m] show ?thesis
        by (auto simp: Suc)
    qed
  qed
qed

lemma indexOf_spec_None:
  "indexOf_spec n h = None \<longleftrightarrow> (\<forall>k<Suc (length h). \<not> prefix n (drop k h))"
proof (induction h)
  case Nil
  show ?case
    by simp
next
  case (Cons c cs)
  have "(\<forall>k<Suc (length (c # cs)). \<not> prefix n (drop k (c # cs)))
        \<longleftrightarrow> \<not> prefix n (c # cs) \<and> (\<forall>k<Suc (length cs). \<not> prefix n (drop k cs))"
    by (subst All_less_Suc2) simp
  with Cons.IH show ?case
    by simp
qed

text \<open>
  C8: \<open>indexOf\<close> returns the offset of the first position at which the needle is a prefix
  of the rest of the haystack, 0 for an empty needle, and \<open>- 1\<close> when no position up to
  the end of the haystack matches.
\<close>

theorem indexOf_first_match:
  "indexOf haystack needle =
     (case indexOf_spec (chars needle) (chars haystack) of Some k \<Rightarrow> int k | None \<Rightarrow> - 1)
   \<and> (chars needle = [] \<longrightarrow> indexOf haystack needle = 0)
   \<and> (\<forall>k. k \<le> length (chars haystack) \<and> prefix (chars needle) (drop k (chars haystack))
          \<and> (\<forall>j<k. \<not> prefix (chars needle) (drop j (chars haystack)))
        \<longrightarrow> indexOf haystack needle = int k)
   \<and> ((\<forall>k\<le>length (chars haystack). \<not> prefix (chars needle) (drop k (chars haystack)))
        \<longrightarrow> indexOf haystack needle = - 1)"
proof -
  have eq: "indexOf haystack needle =
     (case indexOf_spec (chars needle) (chars haystack) of Some k \<Rightarrow> int k | None \<Rightarrow> - 1)"
    by (simp add: indexOf_def length_cp_chars indexOf_loop_spec split: option.splits)
  have empty: "indexOf_spec [] h = Some 0" for h :: "juce_wchar list"
    by (cases h) simp_all
  show ?thesis
  proof (intro conjI allI impI)
    show "indexOf haystack needle =
       (case indexOf_spec (chars needle) (chars haystack) of Some k \<Rightarrow> int k | None \<Rightarrow> - 1)"
      by (rule eq)
  next
    assume "chars needle = []"
    then show "indexOf haystack needle = 0"
      by (simp add: eq empty)
  next
    fix k
    assume "k \<le> length (chars haystack) \<and> prefix (chars needle) (drop k (chars haystack))
          \<and> (\<forall>j<k. \<not> prefix (chars needle) (drop j (chars haystack)))"
    then have "indexOf_spec (chars needle) (chars haystack) = Some k"
      by (simp add: indexOf_spec_Some)
    then show "indexOf haystack needle = int k"
      by (simp add: eq)
  next
    assume "\<forall>k\<le>length (chars haystack). \<not> prefix (chars needle) (drop k (chars haystack))"
    then have "indexOf_spec (chars needle) (chars haystack) = None"
      by (simp add: indexOf_spec_None less_Suc_eq_le)
    then show "indexOf haystack needle = - 1"
      by (simp add: eq)
  qed
qed

theorem indexOf_first_match_witness:
  "indexOf (text_of ''abcdef'') (text_of ''cd'') = 2
   \<and> indexOf (text_of ''abc'') (text_of ''z'') = - 1
   \<and> indexOf (text_of ''abc'') (text_of []) = 0"
  using indexOf_first_match [of "text_of ''abcdef''" "text_of ''cd''"]
    indexOf_first_match [of "text_of ''abc''" "text_of ''z''"]
    indexOf_first_match [of "text_of ''abc''" "text_of []"]
  by (simp add: text_of_def)

section \<open>copyAndAdvanceUpToBytes\<close>

lemma copyAndAdvanceUpToBytes_loop_unfold:
  "copyAndAdvanceUpToBytes_loop g dest src m n =
     (if sint (m - word_of_nat (g (current src))) < 0 then (dest, n)
      else if current src = 0 then (dest @ [0], n + word_of_nat (g 0))
      else copyAndAdvanceUpToBytes_loop g (dest @ [current src]) (advance src)
             (m - word_of_nat (g (current src))) (n + word_of_nat (g (current src))))"
  by (subst copyAndAdvanceUpToBytes_loop.simps) (simp add: getAndAdvance_def Let_def)

lemma sint_word_of_nat_below: "k < 2 ^ 31 \<Longrightarrow> sint (word_of_nat k :: 32 word) = int k"
proof -
  assume "k < 2 ^ 31"
  then have "int k < 2 ^ 31"
    by (metis of_nat_less_iff of_nat_numeral of_nat_power)
  then have "signed_take_bit 31 (int k) = int k"
    by (intro signed_take_bit_int_eq_self) simp_all
  moreover have "sint (word_of_nat k :: 32 word) = signed_take_bit 31 (int k)"
    using sint_sbintrunc' [where 'a = 32, of "int k"] by simp
  ultimately show ?thesis
    by simp
qed

lemma sint_budget_minus:
  assumes "0 \<le> sint (m :: 32 word)" and "k < 2 ^ 31"
  shows "sint (m - word_of_nat k) = sint m - int k"
proof -
  have "sint m < 2 ^ 31"
    using sint_lt [of m] by simp
  moreover have "int k < 2 ^ 31"
    using assms(2) by (metis of_nat_less_iff of_nat_numeral of_nat_power)
  ultimately have "signed_take_bit 31 (sint m - int k) = sint m - int k"
    using assms(1) by (intro signed_take_bit_int_eq_self) simp_all
  then show ?thesis
    using assms(2) by (simp add: sint_word_diff sint_word_of_nat_below)
qed

lemma copyAndAdvanceUpToBytes_loop_spec:
  assumes "0 \<le> sint m" and "\<forall>c\<in>set (chars src @ [0]). g c < 2 ^ 31"
  shows "copyAndAdvanceUpToBytes_loop g dest src m n =
     (dest @ copy_spec g (chars src @ [0]) (sint m),
      n + word_of_nat (sum_list (map g (copy_spec g (chars src @ [0]) (sint m)))))"
  using assms
proof (induction src arbitrary: dest m n)
  case Nil
  then show ?case
    by (subst copyAndAdvanceUpToBytes_loop_unfold) (simp add: sint_budget_minus)
next
  case (Cons c cs)
  show ?case
  proof (cases "c = 0")
    case True
    with Cons.prems show ?thesis
      by (subst copyAndAdvanceUpToBytes_loop_unfold) (simp add: sint_budget_minus)
  next
    case False
    then have g: "g c < 2 ^ 31" and rest: "\<forall>c\<in>set (chars cs @ [0]). g c < 2 ^ 31"
      using Cons.prems(2) by simp_all
    have m: "sint (m - word_of_nat (g c)) = sint m - int (g c)"
      using Cons.prems(1) g by (rule sint_budget_minus)
    show ?thesis
    proof (cases "sint m < int (g c)")
      case True
      with False m show ?thesis
        by (subst copyAndAdvanceUpToBytes_loop_unfold) simp
    next
      case fits: False
      then have "0 \<le> sint (m - word_of_nat (g c))"
        using m by simp
      from Cons.IH [OF this rest] False fits m show ?thesis
        by (subst copyAndAdvanceUpToBytes_loop_unfold) (simp add: add.assoc)
    qed
  qed
qed

lemma copy_spec_prefix: "prefix (copy_spec g xs m) xs"
  by (induction xs arbitrary: m) simp_all

lemma copy_spec_within: "0 \<le> m \<Longrightarrow> int (sum_list (map g (copy_spec g xs m))) \<le> m"
proof (induction xs arbitrary: m)
  case Nil
  then show ?case by simp
next
  case (Cons c cs)
  show ?case
  proof (cases "m < int (g c)")
    case True
    with Cons.prems show ?thesis by simp
  next
    case False
    then have "0 \<le> m - int (g c)"
      by simp
    from Cons.IH [OF this] False show ?thesis
      by simp
  qed
qed

lemma copy_spec_stops:
  "copy_spec g xs m \<noteq> xs \<Longrightarrow>
   m < int (sum_list (map g (copy_spec g xs m))) + int (g (xs ! length (copy_spec g xs m)))"
proof (induction xs arbitrary: m)
  case Nil
  then show ?case by simp
next
  case (Cons c cs)
  show ?case
  proof (cases "m < int (g c)")
    case True
    then show ?thesis by simp
  next
    case False
    with Cons.prems have "copy_spec g cs (m - int (g c)) \<noteq> cs"
      by simp
    from Cons.IH [OF this] False show ?thesis
      by simp
  qed
qed

lemma copy_spec_all:
  "copy_spec g xs m = xs \<longleftrightarrow> xs = [] \<or> int (sum_list (map g xs)) \<le> m"
proof (induction xs arbitrary: m)
  case Nil
  show ?case by simp
next
  case (Cons c cs)
  show ?case
  proof (cases "m < int (g c)")
    case True
    then show ?thesis by simp
  next
    case False
    then show ?thesis
      using Cons.IH [of "m - int (g c)"] by (cases cs) auto
  qed
qed

text \<open>
  C9 claims that the terminator is written when it fits within the remaining budget, and
  that nothing beyond the budget is written. With one byte for a code point below 128 and
  three bytes otherwise, the text \<open>ab\<close> followed by U+20AC and a budget of 3 leave one
  byte, where the terminator would fit, and no terminator is written. With the least
  \<open>int\<close> as budget the subtraction wraps and the whole text is written.
\<close>

theorem copyAndAdvanceUpToBytes_terminator_counterexample:
  "copyAndAdvanceUpToBytes (\<lambda>c. if c < 128 then 1 else 3) [] (text_of ''ab'' @ [8364]) 3
     = (text_of ''ab'', 2)
   \<and> (2 :: int) + int ((\<lambda>c::nat. if c < 128 then 1 else 3) 0) \<le> 3
   \<and> 0 \<notin> set (fst (copyAndAdvanceUpToBytes (\<lambda>c. if c < 128 then 1 else 3) []
                      (text_of ''ab'' @ [8364]) 3))
   \<and> sint (- 2147483648 :: 32 word) < 0
   \<and> copyAndAdvanceUpToBytes (\<lambda>c. if c < 128 then 1 else 3) [] (text_of ''ab'')
         (- 2147483648)
     = (text_of ''ab'' @ [0], 3)"
  by (simp add: copyAndAdvanceUpToBytes_def copyAndAdvanceUpToBytes_loop_unfold text_of_def)

text \<open>
  C9, as the code has it: for a budget that is not negative (and sizes below \<open>2 ^ 31\<close>),
  \<open>copyAndAdvanceUpToBytes\<close> appends to the destination a prefix \<open>w\<close> of the source's
  code points followed by the terminator, and returns the number of bytes of \<open>w\<close>. That
  number stays within the budget; the first code point that is not written is one whose
  size would exceed what is left, and nothing after it is written; the terminator is
  written exactly when every code point before it was written and it fits in what is
  left, that is, when the whole text with its terminator fits.
\<close>

theorem copyAndAdvanceUpToBytes_budget:
  assumes "0 \<le> sint maxBytes" and "\<forall>c\<in>set (chars src @ [0]). g c < 2 ^ 31"
  shows "\<exists>w. fst (copyAndAdvanceUpToBytes g dest src maxBytes) = dest @ w
       \<and> sint (snd (copyAndAdvanceUpToBytes g dest src maxBytes)) = int (sum_list (map g w))
       \<and> prefix w (chars src @ [0])
       \<and> int (sum_list (map g w)) \<le> sint maxBytes
       \<and> (w \<noteq> chars src @ [0] \<longrightarrow>
            sint maxBytes < int (sum_list (map g w)) + int (g ((chars src @ [0]) ! length w)))
       \<and> (0 \<in> set w \<longleftrightarrow> int (sum_list (map g (chars src @ [0]))) \<le> sint maxBytes)"
proof -
  let ?full = "chars src @ [0]"
  let ?w = "copy_spec g ?full (sint maxBytes)"
  have nz: "0 \<notin> set (chars src)"
    by (auto simp: chars_def dest: set_takeWhileD)
  have "0 \<in> set ?w \<longleftrightarrow> ?w = ?full"
  proof
    assume z: "0 \<in> set ?w"
    obtain ys where ys: "?full = ?w @ ys"
      using copy_spec_prefix [of g ?full "sint maxBytes"] by (auto simp: prefix_def)
    have "ys = []"
    proof (rule ccontr)
      assume "ys \<noteq> []"
      then have "?w @ butlast ys = chars src"
        using ys by (metis butlast_append butlast_snoc)
      with z nz show False
        by (metis Un_iff set_append)
    qed
    with ys show "?w = ?full"
      by simp
  next
    assume "?w = ?full"
    then show "0 \<in> set ?w"
      by simp
  qed
  then have terminator: "0 \<in> set ?w \<longleftrightarrow> int (sum_list (map g ?full)) \<le> sint maxBytes"
    using copy_spec_all [of g ?full "sint maxBytes"] by simp
  have within: "int (sum_list (map g ?w)) \<le> sint maxBytes"
    using assms(1) by (rule copy_spec_within)
  have "sint maxBytes < 2 ^ 31"
    using sint_lt [of maxBytes] by simp
  with within have "sum_list (map g ?w) < 2 ^ 31"
    by (metis (no_types, lifting) le_less_trans of_nat_less_iff of_nat_numeral of_nat_power)
  then have count: "sint (word_of_nat (sum_list (map g ?w)) :: 32 word) = int (sum_list (map g ?w))"
    by (rule sint_word_of_nat_below)
  have run: "copyAndAdvanceUpToBytes g dest src maxBytes =
             (dest @ ?w, word_of_nat (sum_list (map g ?w)))"
    using copyAndAdvanceUpToBytes_loop_spec [OF assms, of dest 0]
    by (simp add: copyAndAdvanceUpToBytes_def)
  show ?thesis
    apply (rule exI [of _ ?w])
    using copy_spec_prefix [of g ?full "sint maxBytes"] within
      copy_spec_stops [of g ?full "sint maxBytes"] terminator count
    by (simp add: run)
qed

theorem copyAndAdvanceUpToBytes_budget_witness:
  "copyAndAdvanceUpToBytes (\<lambda>c. if c < 128 then 1 else 3) [] (text_of ''ab'' @ [8364]) 3
     = (text_of ''ab'', 2)
   \<and> copyAndAdvanceUpToBytes (\<lambda>c. if c < 128 then 1 else 3) [] (text_of ''ab'') 3
     = (text_of ''ab'' @ [0], 3)"
proof -
  have h: "0 \<le> sint (3 :: 32 word)"
    "\<forall>c\<in>set (chars (text_of ''ab'' @ [8364]) @ [0]). (if c < 128 then 1 else 3) < (2 :: nat) ^ 31"
    "\<forall>c\<in>set (chars (text_of ''ab'') @ [0]). (if c < 128 then 1 else 3) < (2 :: nat) ^ 31"
    by (simp_all add: text_of_def)
  show ?thesis
    using copyAndAdvanceUpToBytes_budget [OF h(1) h(2), of "[]"]
      copyAndAdvanceUpToBytes_budget [OF h(1) h(3), of "[]"]
    by (simp add: copyAndAdvanceUpToBytes_def copyAndAdvanceUpToBytes_loop_unfold text_of_def)
qed

section \<open>getIntValue is parseInteger\<close>

lemma getIntValue_loop_unfold:
  "getIntValue_loop v p =
     (if isDigit (current p)
      then getIntValue_loop (v * 10 + of_nat (current p - chr CHR ''0'')) (advance p)
      else (v, advance p))"
  by (subst getIntValue_loop.simps) (simp add: getAndAdvance_def isDigit_def)

lemma getIntValue_loop_foldl:
  "fst (getIntValue_loop v p) =
     foldl (\<lambda>a c. a * 10 + of_nat (c - chr CHR ''0'')) v (takeWhile isDigit p)"
proof (induction p arbitrary: v)
  case Nil
  show ?case
    by (subst getIntValue_loop_unfold) (simp add: isDigit_def)
next
  case (Cons c cs)
  show ?case
  proof (cases "isDigit c")
    case True
    then show ?thesis
      using Cons.IH by (subst getIntValue_loop_unfold) (simp add: isDigit_nonzero)
  next
    case False
    then show ?thesis
      by (subst getIntValue_loop_unfold) simp
  qed
qed

lemma takeWhile_isDigit_chars: "takeWhile isDigit (chars p) = takeWhile isDigit p"
  by (induction p) (auto simp: chars_def dest: isDigit_nonzero)

lemma chars_dropWhile_isWhitespace:
  "chars (dropWhile isWhitespace p) = dropWhile isWhitespace (chars p)"
  by (induction p) (auto simp: chars_def dest: isWhitespace_nonzero)

lemma chars_advance: "chars (advance p) = tl (chars p)"
  by (cases p) (auto simp: chars_def advance_def)

lemma current_chars: "current p = c \<Longrightarrow> c \<noteq> 0 \<Longrightarrow> chars p \<noteq> [] \<and> hd (chars p) = c"
  by (cases p) (auto simp: chars_def)

lemma chars_current: "chars p \<noteq> [] \<Longrightarrow> current p = hd (chars p)"
  by (cases p) (auto simp: chars_def split: if_splits)

lemma getIntValue_spec: "getIntValue text = parseInteger_spec text"
proof -
  let ?p = "findEndOfWhitespace text"
  have p: "chars ?p = dropWhile isWhitespace (chars text)"
    by (simp add: findEndOfWhitespace_dropWhile chars_dropWhile_isWhitespace)
  have neg: "current ?p = chr CHR ''-'' \<longleftrightarrow> chars ?p \<noteq> [] \<and> hd (chars ?p) = chr CHR ''-''"
    using current_chars [of ?p "chr CHR ''-''"] chars_current [of ?p] by auto
  show ?thesis
  proof (cases "current ?p = chr CHR ''-''")
    case True
    then show ?thesis
      using neg
      by (simp add: getIntValue_def getIntValue_run_def parseInteger_spec_def Let_def
          split_beta getIntValue_loop_foldl p [symmetric]
          takeWhile_isDigit_chars [of "advance ?p", symmetric] chars_advance)
  next
    case False
    then show ?thesis
      using neg
      by (auto simp add: getIntValue_def getIntValue_run_def parseInteger_spec_def Let_def
          split_beta getIntValue_loop_foldl p [symmetric]
          takeWhile_isDigit_chars [of ?p, symmetric])
  qed
qed

lemma getIntValue_no_digit:
  assumes "\<not> isDigit (current (if current (findEndOfWhitespace text) = chr CHR ''-''
                               then advance (findEndOfWhitespace text)
                               else findEndOfWhitespace text))"
  shows "getIntValue text = 0"
proof -
  have "fst (getIntValue_loop 0 p) = 0" if "\<not> isDigit (current p)" for p
    using that by (subst getIntValue_loop_unfold) simp
  with assms show ?thesis
    by (auto simp add: getIntValue_def getIntValue_run_def Let_def split_beta split: if_splits)
qed

text \<open>
  C6: \<open>getIntValue\<close> is the specification's \<open>parseInteger\<close>: whitespace skipped, an
  optional minus sign, the digits folded as \<open>v * 10 + digit\<close> in the wrapping arithmetic
  of the integer type, the sign applied last. \<open>"2147483648"\<close> gives the least 32-bit
  value; a leading plus sign is not a digit and gives 0, as does any text without digits.
\<close>

theorem getIntValue_wraps:
  "(getIntValue text :: 'a::len word) = parseInteger_spec text
   \<and> (getIntValue (text_of ''2147483648'') :: 32 word) = - 2147483648
   \<and> sint (getIntValue (text_of ''2147483648'') :: 32 word) = - (2 ^ 31)
   \<and> (current (findEndOfWhitespace text) = chr CHR ''+''
        \<longrightarrow> (getIntValue text :: 'a word) = 0)
   \<and> (\<not> isDigit (current (if current (findEndOfWhitespace text) = chr CHR ''-''
                             then advance (findEndOfWhitespace text)
                             else findEndOfWhitespace text))
       \<longrightarrow> (getIntValue text :: 'a word) = 0)"
proof (intro conjI impI)
  show "(getIntValue text :: 'a word) = parseInteger_spec text"
    by (rule getIntValue_spec)
next
  show v: "(getIntValue (text_of ''2147483648'') :: 32 word) = - 2147483648"
    by (simp add: getIntValue_spec parseInteger_spec_def text_of_def chars_def
        isWhitespace_def isDigit_def)
  then show "sint (getIntValue (text_of ''2147483648'') :: 32 word) = - (2 ^ 31)"
    by simp
next
  assume "current (findEndOfWhitespace text) = chr CHR ''+''"
  then show "(getIntValue text :: 'a word) = 0"
    by (intro getIntValue_no_digit) (simp add: isDigit_def)
next
  assume "\<not> isDigit (current (if current (findEndOfWhitespace text) = chr CHR ''-''
                             then advance (findEndOfWhitespace text)
                             else findEndOfWhitespace text))"
  then show "(getIntValue text :: 'a word) = 0"
    by (rule getIntValue_no_digit)
qed

theorem getIntValue_wraps_witness:
  "(getIntValue (text_of '' +5'') :: 32 word) = 0
   \<and> (getIntValue (text_of '' -12x'') :: 32 word) = - 12
   \<and> (getIntValue (text_of ''x'') :: 32 word) = 0"
  using getIntValue_wraps [where 'a = "32", of "text_of '' +5''"]
    getIntValue_wraps [where 'a = "32", of "text_of '' -12x''"]
    getIntValue_wraps [where 'a = "32", of "text_of ''x''"]
  by (simp add: parseInteger_spec_def text_of_def chars_def findEndOfWhitespace_dropWhile
      isWhitespace_def isDigit_def)

section \<open>The significant-digit budget\<close>

lemma skipDigits_unfold:
  "skipDigits st =
     (if isDigit (current (s st)) then
        skipDigits
          (if decPointIndex st = 0
           then st\<lparr>s := advance (s st),
                   exponentAdjustment :=
                     (exponentAdjustment st)(0 := exponentAdjustment st 0 + 1)\<rparr>
           else st\<lparr>s := advance (s st)\<rparr>)
      else st)"
  by (subst skipDigits.simps) (simp add: Let_def)

lemma skipDigits_eq:
  "skipDigits st =
     st\<lparr>s := dropWhile isDigit (s st),
        exponentAdjustment :=
          (if decPointIndex st = 0
           then (exponentAdjustment st)
                  (0 := exponentAdjustment st 0 + int (length (takeWhile isDigit (s st))))
           else exponentAdjustment st)\<rparr>"
proof (induction p \<equiv> "s st" arbitrary: st)
  case Nil
  then have "s st = []"
    by simp
  then show ?case
    by (subst skipDigits_unfold) (simp add: isDigit_def)
next
  case (Cons c cs)
  then have p: "s st = c # cs"
    by simp
  show ?case
  proof (cases "isDigit c")
    case True
    then have c: "c \<noteq> 0"
      by (rule isDigit_nonzero)
    show ?thesis
    proof (cases "decPointIndex st = 0")
      case z: True
      let ?st = "st\<lparr>s := advance (s st),
                   exponentAdjustment :=
                     (exponentAdjustment st)(0 := exponentAdjustment st 0 + 1)\<rparr>"
      have "cs = s ?st"
        using p c by simp
      from Cons.hyps(1) [OF this] show ?thesis
        using p c True z by (subst skipDigits_unfold) (simp add: add.assoc)
    next
      case nz: False
      let ?st = "st\<lparr>s := advance (s st)\<rparr>"
      have "cs = s ?st"
        using p c by simp
      from Cons.hyps(1) [OF this] show ?thesis
        using p c True nz by (subst skipDigits_unfold) simp
    qed
  next
    case False
    then show ?thesis
      using p by (subst skipDigits_unfold) simp
  qed
qed







text \<open>
  Whole texts: the values of the specification's examples, and texts of more than 17
  significant digits, where the 18th digit rounds the 17th (up for 8, up for 5 after the
  odd 7, not for 5 after the even 6).
\<close>

lemma getDoubleValue_examples:
  "getDoubleValue (text_of ''0'') = Finite False 0 0"
  "getDoubleValue (text_of ''1e10'') = double_of_int 10000000000"
  "getDoubleValue (text_of ''-2.5e-3'') = Finite True 5764607523034235 (- 61)"
  "getDoubleValue (text_of ''3.14159'') = Finite False 7074231776675438 (- 51)"
  "getDoubleValue (text_of ''123456789012345678901'') =
     mulexp10 (double_of_int 12345678901234568) 4"
  "getDoubleValue (text_of ''12345678901234567.8'') = double_of_int 12345678901234568"
  "getDoubleValue (text_of ''1.23456789012345675'') =
     dadd (double_of_int 1) (mulexp10 (double_of_int 2345678901234568) (- 16))"
  "getDoubleValue (text_of ''1.23456789012345665'') =
     dadd (double_of_int 1) (mulexp10 (double_of_int 2345678901234566) (- 16))"
  by code_simp+

section \<open>The caller's cursor\<close>

lemma suffix_advance: "suffix (advance p) p"
  by (cases p) (auto simp: advance_def suffix_Cons)

lemma suffix_advance_trans: "suffix p q \<Longrightarrow> suffix (advance p) q"
  using suffix_advance suffix_order.trans by blast

lemma s_foldDigit [simp]: "s (foldDigit st) = s st"
  by (simp add: foldDigit_def Let_def)

lemma s_capDigit [simp]: "s (capDigit st) = dropWhile isDigit (s st)"
  by (simp add: capDigit_def Let_def skipDigits_eq)

lemma suffix_digitStep: "suffix (s (digitStep st)) (s st)"
proof -
  have "suffix (dropWhile isDigit (advance (s st))) (s st)"
    using suffix_dropWhile suffix_advance suffix_order.trans by blast
  then show ?thesis
    by (simp add: digitStep_def getAndAdvance_def Let_def suffix_advance)
qed

lemma suffix_mainLoop: "suffix (s (mainLoop st)) (s st)"
proof (rule mainLoop_invariant [where P = "\<lambda>x::locals. suffix (s x) (s st)"])
  show "suffix (s st) (s st)"
    by simp
next
  fix x :: locals
  assume "suffix (s x) (s st)"
  then show "suffix (s (digitStep x)) (s st)"
    using suffix_digitStep suffix_order.trans by blast
next
  fix x :: locals
  assume "suffix (s x) (s st)"
  then show "suffix (s (x\<lparr>s := advance (s x), decPointIndex := 1\<rparr>)) (s st)"
    by (simp add: suffix_advance_trans)
next
  fix x :: locals
  assume "suffix (s x) (s st)"
  then have "suffix (dropWhile isDigit (advance (s x))) (s st)"
    using suffix_dropWhile suffix_advance_trans suffix_order.trans by blast
  then show "suffix (s (x\<lparr>s := dropWhile isDigit (advance (s x)), decPointIndex := 1\<rparr>)) (s st)"
    by simp
qed

lemma suffix_exponentLoop: "suffix (s (exponentLoop st)) (s st)"
proof (induction st rule: exponentLoop.induct)
  case (1 st)
  show ?case
  proof (cases "isDigit (current (s st))")
    case True
    let ?st = "st\<lparr>exponent := exponent st * 10 + (int (current (s st)) - int (chr CHR ''0'')),
                  s := advance (s st)\<rparr>"
    have "exponentLoop st = exponentLoop ?st"
      using True by (subst exponentLoop.simps) (simp add: getAndAdvance_def)
    moreover have "suffix (s (exponentLoop ?st)) (s ?st)"
      using "1.IH" [OF True] by (simp add: getAndAdvance_def)
    ultimately show ?thesis
      using suffix_advance [of "s st"] suffix_order.trans by fastforce
  next
    case False
    then show ?thesis
      by (subst exponentLoop.simps) simp
  qed
qed

lemma suffix_readExponent: "suffix (s (readExponent st)) (s st)"
proof -
  have "suffix (s (exponentLoop (st\<lparr>s := p\<rparr>))) (s st)" if "suffix p (s st)" for p
    using suffix_exponentLoop [of "st\<lparr>s := p\<rparr>"] that suffix_order.trans by fastforce
  then show ?thesis
    by (simp add: readExponent_def Let_def suffix_advance suffix_advance_trans)
qed

lemma suffix_readSign: "suffix (s (readSign st)) (s st)"
  by (simp add: readSign_def Let_def suffix_advance)

lemma suffix_getDoubleValue_run: "suffix (s (snd (getDoubleValue_run text))) text"
proof -
  let ?st = "readSign (initial text)"
  have start: "suffix (s ?st) text"
    using suffix_readSign [of "initial text"] suffix_dropWhile [of isWhitespace "text"]
      suffix_order.trans
    by (fastforce simp: initial_def findEndOfWhitespace_dropWhile)
  have "suffix (s (readExponent (flush (mainLoop ?st)))) (s ?st)"
    using suffix_readExponent [of "flush (mainLoop ?st)"] suffix_mainLoop [of ?st]
      suffix_order.trans
    by fastforce
  with start have "suffix (s (readExponent (flush (mainLoop ?st)))) text"
    using suffix_order.trans by blast
  with start show ?thesis
    by (simp add: getDoubleValue_run_def Let_def split: option.splits)
qed

lemma suffix_getIntValue_loop: "suffix (snd (getIntValue_loop v p)) p"
proof (induction p arbitrary: v)
  case Nil
  show ?case
    by (subst getIntValue_loop_unfold) (simp add: isDigit_def)
next
  case (Cons c cs)
  show ?case
  proof (cases "isDigit c")
    case True
    then show ?thesis
      using Cons.IH by (subst getIntValue_loop_unfold) (simp add: isDigit_nonzero suffix_Cons)
  next
    case False
    then show ?thesis
      by (subst getIntValue_loop_unfold) (simp add: suffix_advance)
  qed
qed

lemma suffix_getIntValue_run: "suffix (snd (getIntValue_run text)) text"
proof -
  let ?p = "findEndOfWhitespace text"
  have p: "suffix ?p text"
    by (simp add: findEndOfWhitespace_dropWhile suffix_dropWhile)
  have "suffix (snd (getIntValue_loop v q)) text" if "suffix q text" for v :: "'a word" and q
    using suffix_getIntValue_loop [of v q] that suffix_order.trans by blast
  then show ?thesis
    using p by (simp add: getIntValue_run_def Let_def split_beta suffix_advance_trans)
qed

text \<open>
  C2 claims that both parsers advance the caller's cursor to the first code point they did
  not consume. For \<open>"12"\<close> the scan of either function reaches the end of the text,
  while the caller's cursor still points at the \<open>1\<close>.
\<close>

theorem numeric_parsers_cursor_counterexample:
  "snd (getDoubleValue_call (text_of ''12'')) = text_of ''12''
   \<and> s (snd (getDoubleValue_run (text_of ''12''))) = []
   \<and> snd (getDoubleValue_call (text_of ''12'')) \<noteq> s (snd (getDoubleValue_run (text_of ''12'')))
   \<and> snd (getIntValue_call (text_of ''12'') :: 32 word \<times> cursor) = text_of ''12''
   \<and> snd (getIntValue_run (text_of ''12'') :: 32 word \<times> cursor) = []"
  by code_simp

text \<open>
  C2, as the code has it: both parsers take the cursor by reference to const and leave the
  caller's cursor where it was. They advance a local copy only, which ends at or after the
  caller's position.
\<close>

theorem numeric_parsers_leave_caller_cursor:
  "snd (getDoubleValue_call text) = text
   \<and> snd (getIntValue_call text :: 'a::len word \<times> cursor) = text
   \<and> suffix (s (snd (getDoubleValue_run text))) text
   \<and> suffix (snd (getIntValue_run text :: 'a word \<times> cursor)) text"
  by (simp add: getDoubleValue_call_def getIntValue_call_def suffix_getDoubleValue_run
      suffix_getIntValue_run)

end
